theory Spec2Isabelle
  imports Complex_Main
begin

section \<open>JavaScript values and arithmetic\<close>

text \<open>
  The arguments of \<open>start\<close> and \<open>toggle\<close> are JavaScript values. The model keeps the
  values the documented parameter type (number) and the class's own calls can pass:
  \<open>undefined\<close> (an omitted argument), \<open>null\<close> (the initial \<open>#bpm\<close>), \<open>NaN\<close>, a
  finite number, \<open>Infinity\<close> and \<open>-Infinity\<close> (the caller passes a quotient, which is
  infinite when its divisor is 0). Finite numbers are exact reals: rounding and the sign
  of zero are not modelled.
\<close>

datatype jsval = JUndefined | JNull | JNaN | JNum real | JInfinity | JNegInfinity

text \<open>A number other than \<open>NaN\<close>, as a field of the metronome stores it.\<close>

datatype jsnum = Fin real | PInf | NInf

text \<open>\<open>!v\<close>: the values JavaScript treats as false.\<close>

definition falsy :: "jsval \<Rightarrow> bool" where
  "falsy v =
     (case v of JUndefined \<Rightarrow> True | JNull \<Rightarrow> True | JNaN \<Rightarrow> True | JNum x \<Rightarrow> x = 0
      | JInfinity \<Rightarrow> False | JNegInfinity \<Rightarrow> False)"

text \<open>Unary plus \<open>+v\<close>; the result \<open>None\<close> stands for \<open>NaN\<close>.\<close>

definition to_number :: "jsval \<Rightarrow> jsnum option" where
  "to_number v =
     (case v of JUndefined \<Rightarrow> None | JNull \<Rightarrow> Some (Fin 0) | JNaN \<Rightarrow> None
      | JNum x \<Rightarrow> Some (Fin x) | JInfinity \<Rightarrow> Some PInf | JNegInfinity \<Rightarrow> Some NInf)"

text \<open>\<open>Number.isNaN\<close> on the result of a unary plus.\<close>

definition isNaN :: "jsnum option \<Rightarrow> bool" where
  "isNaN n = (n = None)"

text \<open>A stored field read back as a value: an unset field is \<open>null\<close>.\<close>

definition field_value :: "jsnum option \<Rightarrow> jsval" where
  "field_value n =
     (case n of None \<Rightarrow> JNull | Some (Fin x) \<Rightarrow> JNum x | Some PInf \<Rightarrow> JInfinity
      | Some NInf \<Rightarrow> JNegInfinity)"

text \<open>
  The remainder operator \<open>a % b\<close> on finite numbers with \<open>b \<noteq> 0\<close>: the quotient is
  truncated towards zero, so the result has the sign of the dividend.
\<close>

definition js_trunc :: "real \<Rightarrow> int" where
  "js_trunc x = (if 0 \<le> x then \<lfloor>x\<rfloor> else \<lceil>x\<rceil>)"

definition js_rem :: "real \<Rightarrow> real \<Rightarrow> real" where
  "js_rem a b = a - b * of_int (js_trunc (a / b))"

section \<open>The metronome and its environment\<close>

text \<open>An entry of \<open>#rhythm\<close>: an object with the fields \<open>time\<close> and \<open>accent\<close>.\<close>

record beep =
  beep_time :: real
  beep_accent :: bool

text \<open>The two callbacks the class hands to \<open>setTimeout\<close>.\<close>

datatype task = Scheduler | SchedulerForRhythmTrack

text \<open>What the class writes to the console.\<close>

datatype log = InvalidBpm jsval | InvalidAccent jsval | Started jsval jsval | Stopped

text \<open>
  \<open>TypeError\<close>: calling \<open>#onClick\<close> while it is \<open>null\<close>, or reading \<open>length\<close> of a
  \<open>null\<close> \<open>#rhythm\<close>. \<open>NonFinite\<close> stands for the TypeError of \<open>osc.start(NaN)\<close>,
  thrown after the callback was called with \<open>NaN\<close>: the log of the callback's calls
  holds reals and does not record that call. It arises only when \<open>#bpm\<close> is null or
  zero and the beat count is negative; \<open>start\<close> never stores such a tempo.
\<close>

datatype error = TypeError | NonFinite

text \<open>
  The private fields of \<open>Metronome\<close> come first, under the source's names. A field that
  is \<open>null\<close> until \<open>start\<close> sets it is an option. \<open>onClick\<close> records whether a callback
  is registered; the callback's calls are logged in \<open>clicks\<close>. The remaining fields are
  the browser: the audio context's clock and state, the oscillators started so far as
  (frequency, start time, stop time), the pending timeouts, and the console.
\<close>

record world =
  isPlaying :: bool
  timerID :: "nat option"
  bpm :: "jsnum option"
  accent :: "jsnum option"
  startTimeStamp :: "real option"
  beatCount :: "int option"
  rhythm :: "beep list option"
  onClick :: bool
  currentTime :: real
  suspended :: bool
  oscillators :: "(real \<times> real \<times> real) list"
  clicks :: "real list"
  timers :: "(nat \<times> task) list"
  nextTimer :: nat
  console :: "log list"

text \<open>A call returns normally with the new state, or throws and leaves a state behind.\<close>

type_synonym outcome = "(error \<times> world) + world"

definition beepDuration :: real where
  "beepDuration = 0.05"

definition lookAheadTime :: real where
  "lookAheadTime = 0.5"

text \<open>\<open>new Metronome()\<close> in a browser whose audio clock reads \<open>t\<close>.\<close>

definition new_metronome :: "real \<Rightarrow> world" where
  "new_metronome t =
     \<lparr>isPlaying = False, timerID = None, bpm = None, accent = Some (Fin 4),
      startTimeStamp = None, beatCount = None, rhythm = None, onClick = False,
      currentTime = t, suspended = False, oscillators = [], clicks = [],
      timers = [], nextTimer = 1, console = []\<rparr>"

text \<open>The setter \<open>onClick(callback)\<close>.\<close>

definition set_onClick :: "world \<Rightarrow> world" where
  "set_onClick w = w\<lparr>onClick := True\<rparr>"

text \<open>\<open>null\<close> in arithmetic is 0.\<close>

definition num :: "'a::zero option \<Rightarrow> 'a" where
  "num n = (case n of None \<Rightarrow> 0 | Some x \<Rightarrow> x)"

definition setTimeout :: "task \<Rightarrow> world \<Rightarrow> nat \<times> world" where
  "setTimeout f w =
     (nextTimer w, w\<lparr>timers := timers w @ [(nextTimer w, f)], nextTimer := nextTimer w + 1\<rparr>)"

definition clearTimeout :: "nat option \<Rightarrow> world \<Rightarrow> world" where
  "clearTimeout h w =
     (case h of None \<Rightarrow> w
      | Some i \<Rightarrow> w\<lparr>timers := filter (\<lambda>p. fst p \<noteq> i) (timers w)\<rparr>)"

text \<open>\<open>_playSound(time, frequency)\<close>: the callback first, then the oscillator.\<close>

definition playSound :: "real \<Rightarrow> real \<Rightarrow> world \<Rightarrow> outcome" where
  "playSound time frequency w =
     (if \<not> onClick w then Inl (TypeError, w)
      else Inr (w\<lparr>clicks := clicks w @ [time],
                  oscillators := oscillators w @ [(frequency, time, time + beepDuration)]\<rparr>))"

text \<open>
  The accent test of \<open>_scheduler\<close>, on the count before its increment. With an
  infinite accent the remainder is the count itself and \<open>accentNote - 1\<close> is infinite,
  so the first test fails.
\<close>

definition isAccent :: "jsnum option \<Rightarrow> int option \<Rightarrow> bool" where
  "isAccent accentNote count =
     ((case accentNote of None \<Rightarrow> False
       | Some (Fin a) \<Rightarrow> js_rem (of_int (num count)) a = a - 1
       | Some PInf \<Rightarrow> False
       | Some NInf \<Rightarrow> False)
      \<or> count = Some (- 1))"

text \<open>
  The while loop of \<open>_scheduler\<close>. It need not terminate (a negative \<open>secondsPerBeat\<close>
  moves the note time away from the bound, a zero one leaves it in place), so not
  returning is the value \<open>None\<close>. The additions are exact: a double addition that rounds
  the note time is not modelled.
\<close>

partial_function (option) scheduler_loop ::
  "jsnum option \<Rightarrow> real \<Rightarrow> real \<Rightarrow> world \<Rightarrow> outcome option" where
  [code]: "scheduler_loop accentNote secondsPerBeat nextNotetime w =
     (if nextNotetime < currentTime w + lookAheadTime then
        (let nextNotetime' = nextNotetime + secondsPerBeat;
             frequency = (if isAccent accentNote (beatCount w) then 330 else 220)
         in case playSound nextNotetime' frequency w of
              Inl e \<Rightarrow> Some (Inl e)
            | Inr w' \<Rightarrow>
                scheduler_loop accentNote secondsPerBeat nextNotetime'
                  (w'\<lparr>beatCount := Some (num (beatCount w') + 1)\<rparr>))
      else Some (Inr w))"

text \<open>
  \<open>60 / #bpm\<close>. The quotient is \<open>Infinity\<close> (here \<open>None\<close>) when the tempo is null or
  zero, and zero when the tempo is infinite.
\<close>

definition secondsPerBeat_of :: "jsnum option \<Rightarrow> real option" where
  "secondsPerBeat_of tempo =
     (case tempo of
        None \<Rightarrow> None
      | Some (Fin b) \<Rightarrow> (if b = 0 then None else Some (60 / b))
      | Some PInf \<Rightarrow> Some 0
      | Some NInf \<Rightarrow> Some 0)"

text \<open>
  \<open>_scheduler\<close>: the loop, then the next run is planned. With an infinite
  \<open>secondsPerBeat\<close> the first note time is \<open>Infinity\<close> or \<open>NaN\<close> when the beat count
  is not negative, and the loop is not entered; it is \<open>-Infinity\<close> when the count is
  negative, and the loop's first \<open>_playSound\<close> is called with \<open>NaN\<close> and throws.
\<close>

definition scheduler :: "world \<Rightarrow> outcome option" where
  "scheduler w =
     (case secondsPerBeat_of (bpm w) of
        None \<Rightarrow>
          (if num (beatCount w) < 0 then
             (if \<not> onClick w then Some (Inl (TypeError, w)) else Some (Inl (NonFinite, w)))
           else
             (let (i, w'') = setTimeout Scheduler w
              in Some (Inr (w''\<lparr>timerID := Some i\<rparr>))))
      | Some secondsPerBeat \<Rightarrow>
          (let accentNote = accent w;
               nextNotetime = num (startTimeStamp w) + of_int (num (beatCount w)) * secondsPerBeat
           in case scheduler_loop accentNote secondsPerBeat nextNotetime w of
                None \<Rightarrow> None
              | Some (Inl e) \<Rightarrow> Some (Inl e)
              | Some (Inr w') \<Rightarrow>
                  (let (i, w'') = setTimeout Scheduler w'
                   in Some (Inr (w''\<lparr>timerID := Some i\<rparr>)))))"

text \<open>The while loop of \<open>_schedulerForRhythmTrack\<close>, over the queue \<open>#rhythm\<close> holds.\<close>

fun rhythm_loop :: "real \<Rightarrow> beep list \<Rightarrow> world \<Rightarrow> outcome" where
  "rhythm_loop scheduleEndTime [] w = Inr w"
| "rhythm_loop scheduleEndTime (b # bs) w =
     (let nextNoteTime = num (startTimeStamp w) + beep_time b
      in if nextNoteTime > scheduleEndTime then Inr w
         else
           (case playSound nextNoteTime (if beep_accent b then 330 else 220)
                   (w\<lparr>rhythm := Some bs\<rparr>) of
              Inl e \<Rightarrow> Inl e
            | Inr w' \<Rightarrow> rhythm_loop scheduleEndTime bs w'))"

definition schedulerForRhythmTrack :: "world \<Rightarrow> outcome" where
  "schedulerForRhythmTrack w =
     (case rhythm w of
        None \<Rightarrow> Inl (TypeError, w)
      | Some q \<Rightarrow>
          (case rhythm_loop (currentTime w + lookAheadTime) q w of
             Inl e \<Rightarrow> Inl e
           | Inr w' \<Rightarrow>
               (case rhythm w' of
                  None \<Rightarrow> Inl (TypeError, w')
                | Some [] \<Rightarrow> Inr w'
                | Some (b # bs) \<Rightarrow>
                    (let (i, w'') = setTimeout SchedulerForRhythmTrack w'
                     in Inr (w''\<lparr>timerID := Some i\<rparr>)))))"

section \<open>The public operations\<close>

text \<open>
  \<open>start(bpm, accent = 4)\<close>. The two guards return after \<open>console.error\<close>; past
  them the fields are set and \<open>_scheduler\<close> runs once, synchronously.
\<close>

definition start :: "jsval \<Rightarrow> jsval \<Rightarrow> world \<Rightarrow> outcome option" where
  "start bpm0 accent0 w =
     (let accent1 = (if accent0 = JUndefined then JNum 4 else accent0)
      in if falsy bpm0 \<or> isNaN (to_number bpm0) then
           Some (Inr (w\<lparr>console := console w @ [InvalidBpm bpm0]\<rparr>))
         else if falsy accent1 \<or> isNaN (to_number accent1) then
           Some (Inr (w\<lparr>console := console w @ [InvalidAccent accent1]\<rparr>))
         else
           scheduler
             (w\<lparr>console := console w @ [Started bpm0 accent1],
                suspended := False,
                bpm := to_number bpm0,
                accent := to_number accent1,
                isPlaying := True,
                beatCount := Some (- 1),
                startTimeStamp := Some (currentTime w)\<rparr>))"

definition stop :: "world \<Rightarrow> world" where
  "stop w = (clearTimeout (timerID w) (w\<lparr>console := console w @ [Stopped]\<rparr>))\<lparr>isPlaying := False\<rparr>"

definition toggle :: "jsval \<Rightarrow> jsval \<Rightarrow> world \<Rightarrow> outcome option" where
  "toggle bpm0 accent0 w =
     (let accent1 = (if accent0 = JUndefined then JNum 4 else accent0)
      in if isPlaying w then Some (Inr (stop w))
         else start (if bpm0 = JUndefined then field_value (bpm w) else bpm0) accent1 w)"

section \<open>The browser's side: the clock and the timeouts\<close>

text \<open>The audio clock moves to \<open>now\<close>.\<close>

definition advance :: "real \<Rightarrow> world \<Rightarrow> world" where
  "advance now w = w\<lparr>currentTime := now\<rparr>"

text \<open>
  The timeout with handle \<open>i\<close> fires: it leaves the pending list and its callback runs.
  A handle that is not pending (cleared, or fired before) does nothing.
\<close>

definition fire :: "nat \<Rightarrow> world \<Rightarrow> outcome option" where
  "fire i w =
     (case map_of (timers w) i of
        None \<Rightarrow> Some (Inr w)
      | Some f \<Rightarrow>
          (let w' = w\<lparr>timers := filter (\<lambda>p. fst p \<noteq> i) (timers w)\<rparr>
           in case f of
                Scheduler \<Rightarrow> scheduler w'
              | SchedulerForRhythmTrack \<Rightarrow> Some (schedulerForRhythmTrack w')))"

text \<open>
  One playback session after \<open>start\<close>: at each of the clock times in turn, the timeout
  the metronome planned last fires.
\<close>

fun ticks :: "real list \<Rightarrow> world \<Rightarrow> outcome option" where
  "ticks [] w = Some (Inr w)"
| "ticks (t # ts) w =
     (case timerID w of
        None \<Rightarrow> Some (Inr w)
      | Some i \<Rightarrow>
          (case fire i (advance t w) of
             None \<Rightarrow> None
           | Some (Inl e) \<Rightarrow> Some (Inl e)
           | Some (Inr w') \<Rightarrow> ticks ts w'))"

text \<open>A session: \<open>start\<close>, then the planned timeout fires at each of the given times.\<close>

definition session :: "jsval \<Rightarrow> jsval \<Rightarrow> real list \<Rightarrow> world \<Rightarrow> outcome option" where
  "session bpm0 accent0 ts w =
     (case start bpm0 accent0 w of
        None \<Rightarrow> None
      | Some (Inl e) \<Rightarrow> Some (Inl e)
      | Some (Inr w') \<Rightarrow> ticks ts w')"

section \<open>Notions for stating the properties\<close>

definition emit_beats :: "jsnum option \<Rightarrow> real \<Rightarrow> real \<Rightarrow> int \<Rightarrow> nat \<Rightarrow> world \<Rightarrow> world" where
  "emit_beats a spb nt k n w =
     w\<lparr>clicks := clicks w @ map (\<lambda>j. nt + of_nat (Suc j) * spb) [0..<n],
       oscillators := oscillators w @
         map (\<lambda>j. (if isAccent a (Some (k + int j)) then 330 else 220,
                    nt + of_nat (Suc j) * spb,
                    nt + of_nat (Suc j) * spb + beepDuration)) [0..<n],
       beatCount := Some (k + int n)\<rparr>"

definition beat_time :: "real \<Rightarrow> real \<Rightarrow> nat \<Rightarrow> real" where
  "beat_time t0 b i = t0 + of_nat i * (60 / b)"

definition beat_osc :: "real \<Rightarrow> real \<Rightarrow> real \<Rightarrow> nat \<Rightarrow> real \<times> real \<times> real" where
  "beat_osc t0 b a i =
     (if isAccent (Some (Fin a)) (Some (int i - 1)) then 330 else 220,
      beat_time t0 b i, beat_time t0 b i + beepDuration)"

definition horizon_count :: "real \<Rightarrow> real \<Rightarrow> real \<Rightarrow> int" where
  "horizon_count t0 b now = \<lceil>(now + lookAheadTime - t0) / (60 / b)\<rceil>"

definition plan :: "task \<Rightarrow> world \<Rightarrow> world" where
  "plan f w = w\<lparr>timers := timers w @ [(nextTimer w, f)], nextTimer := nextTimer w + 1,
               timerID := Some (nextTimer w)\<rparr>"

definition wf_timers :: "world \<Rightarrow> bool" where
  "wf_timers w = (\<forall>p \<in> set (timers w). fst p < nextTimer w)"

definition in_session ::
  "real \<Rightarrow> real \<Rightarrow> real \<Rightarrow> real list \<Rightarrow> (real \<times> real \<times> real) list \<Rightarrow> world \<Rightarrow> bool" where
  "in_session b a t0 c0 o0 w =
     (onClick w \<and> bpm w = Some (Fin b) \<and> accent w = Some (Fin a) \<and> startTimeStamp w = Some t0 \<and>
      t0 \<le> currentTime w \<and>
      beatCount w = Some (horizon_count t0 b (currentTime w)) \<and>
      clicks w = c0 @ map (beat_time t0 b) [0..<nat (horizon_count t0 b (currentTime w) + 1)] \<and>
      oscillators w = o0 @ map (beat_osc t0 b a) [0..<nat (horizon_count t0 b (currentTime w) + 1)] \<and>
      (\<exists>i. timerID w = Some i \<and> map_of (timers w) i = Some Scheduler) \<and>
      wf_timers w)"

definition state_of :: "outcome \<Rightarrow> world" where
  "state_of r = (case r of Inl (e, w) \<Rightarrow> w | Inr w \<Rightarrow> w)"

text \<open>Sequencing of calls: the next call runs on the state a normal return leaves.\<close>

definition and_then :: "outcome option \<Rightarrow> (world \<Rightarrow> outcome option) \<Rightarrow> outcome option" where
  "and_then r f = (case r of None \<Rightarrow> None | Some (Inl e) \<Rightarrow> Some (Inl e) | Some (Inr w) \<Rightarrow> f w)"

text \<open>The private fields of the metronome, without the browser's side.\<close>

definition playback_state ::
  "world \<Rightarrow> bool \<times> nat option \<times> jsnum option \<times> jsnum option \<times> real option \<times> int option \<times> beep list option \<times> bool" where
  "playback_state w =
     (isPlaying w, timerID w, bpm w, accent w, startTimeStamp w, beatCount w, rhythm w, onClick w)"

text \<open>
  The rhythm scheduler as the specification words it: an event is due when
  \<open>startTimestamp + offsetSeconds \<le> Clock.now() + lookAheadSeconds\<close>; it is emitted at
  \<open>startTimestamp + offsetSeconds\<close>, at 330 Hz when accented and at 220 Hz otherwise.
\<close>

definition rhythm_due :: "world \<Rightarrow> beep \<Rightarrow> bool" where
  "rhythm_due w e = (num (startTimeStamp w) + beep_time e \<le> currentTime w + lookAheadTime)"

definition rhythm_click :: "world \<Rightarrow> beep \<Rightarrow> real" where
  "rhythm_click w e = num (startTimeStamp w) + beep_time e"

definition rhythm_osc :: "world \<Rightarrow> beep \<Rightarrow> real \<times> real \<times> real" where
  "rhythm_osc w e =
     (if beep_accent e then 330 else 220, rhythm_click w e, rhythm_click w e + beepDuration)"

text \<open>The tick function of the rhythm scheduler invoked at each of the given clock times.\<close>

fun rhythm_ticks :: "real list \<Rightarrow> world \<Rightarrow> outcome" where
  "rhythm_ticks [] w = Inr w"
| "rhythm_ticks (t # ts) w =
     (case schedulerForRhythmTrack (advance t w) of
        Inl e \<Rightarrow> Inl e
      | Inr w' \<Rightarrow> rhythm_ticks ts w')"

section \<open>The loop of the tempo scheduler\<close>

lemma map_upt_Suc_shift: "map f [0..<Suc n] = f 0 # map (\<lambda>j. f (Suc j)) [0..<n]"
  by (simp only: upt_conv_Cons [of 0 "Suc n"] zero_less_Suc if_True list.map map_Suc_upt [symmetric] map_map o_def)

lemma emit_beats_0: "beatCount w = Some k \<Longrightarrow> emit_beats a spb nt k 0 w = w"
  by (simp add: emit_beats_def)

lemma emit_beats_Suc:
  "emit_beats a spb nt k (Suc n) w =
   emit_beats a spb (nt + spb) (k + 1) n
     (w\<lparr>clicks := clicks w @ [nt + spb],
        oscillators := oscillators w @ [(if isAccent a (Some k) then 330 else 220, nt + spb, nt + spb + beepDuration)],
        beatCount := Some (k + 1)\<rparr>)"
  unfolding emit_beats_def map_upt_Suc_shift
  by (simp add: algebra_simps)

lemma scheduler_loop_steps:
  assumes "0 < spb" "onClick w" "beatCount w = Some k"
    and "n = nat \<lceil>(currentTime w + lookAheadTime - nt) / spb\<rceil>"
  shows "scheduler_loop a spb nt w = Some (Inr (emit_beats a spb nt k n w))"
  using assms
proof (induction n arbitrary: nt k w)
  case 0
  then have "\<lceil>(currentTime w + lookAheadTime - nt) / spb\<rceil> \<le> 0" by simp
  then have "(currentTime w + lookAheadTime - nt) / spb \<le> 0" by (simp add: ceiling_le_iff)
  with 0 have "\<not> nt < currentTime w + lookAheadTime"
    by (simp add: divide_le_0_iff)
  with 0 show ?case
    by (subst scheduler_loop.simps) (simp add: emit_beats_0)
next
  case (Suc n)
  let ?H = "currentTime w + lookAheadTime"
  from Suc.prems have pos: "0 < \<lceil>(?H - nt) / spb\<rceil>" by linarith
  then have "0 < (?H - nt) / spb" by (simp add: less_ceiling_iff)
  with Suc.prems have guard: "nt < ?H" by (simp add: zero_less_divide_iff)
  let ?w1 = "w\<lparr>clicks := clicks w @ [nt + spb],
        oscillators := oscillators w @ [(if isAccent a (Some k) then 330 else 220, nt + spb, nt + spb + beepDuration)],
        beatCount := Some (k + 1)\<rparr>"
  have "(?H - (nt + spb)) / spb = (?H - nt) / spb - 1"
    using Suc.prems(1) by (simp add: field_simps)
  then have "\<lceil>(?H - (nt + spb)) / spb\<rceil> = \<lceil>(?H - nt) / spb\<rceil> - 1" by simp
  with Suc.prems have n: "n = nat \<lceil>(currentTime ?w1 + lookAheadTime - (nt + spb)) / spb\<rceil>"
    by simp
  have ih: "scheduler_loop a spb (nt + spb) ?w1 = Some (Inr (emit_beats a spb (nt + spb) (k + 1) n ?w1))"
    by (rule Suc.IH) (use Suc.prems n in simp_all)
  have play: "playSound (nt + spb) (if isAccent a (beatCount w) then 330 else 220) w
      = Inr (w\<lparr>clicks := clicks w @ [nt + spb],
        oscillators := oscillators w @ [(if isAccent a (Some k) then 330 else 220, nt + spb, nt + spb + beepDuration)]\<rparr>)"
    using Suc.prems by (simp add: playSound_def)
  show ?case
    apply (subst scheduler_loop.simps)
    apply (simp only: guard if_True Let_def play sum.case)
    using ih Suc.prems(3) by (simp add: emit_beats_Suc num_def)
qed

lemma map_upt_offset: "map f [0..<m] @ map (\<lambda>j. f (m + j)) [0..<n] = map f [0..<m + n]"
proof -
  have "map (\<lambda>j. f (m + j)) [0..<n] = map f (map (\<lambda>j. j + m) [0..<n])"
    by (simp only: map_map o_def add.commute)
  also have "\<dots> = map f [m..<m + n]"
    by (simp only: map_add_upt add.commute)
  finally have "map f [0..<m] @ map (\<lambda>j. f (m + j)) [0..<n] = map f ([0..<m] @ [m..<m + n])"
    by (simp only: map_append)
  also have "[0..<m] @ [m..<m + n] = [0..<m + n]"
    by (rule upt_add_eq_append [OF le0, symmetric])
  finally show ?thesis .
qed

lemma beat_time_shift:
  fixes s :: real
  assumes "real m = of_int k + 1"
  shows "t0 + of_int k * s + of_nat (Suc j) * s = t0 + of_nat (m + j) * s"
  using assms by (simp add: algebra_simps)

lemma scheduler_session_step:
  assumes b: "0 < b" and oc: "onClick w" and bw: "bpm w = Some (Fin b)" and aw: "accent w = Some (Fin a)"
    and sw: "startTimeStamp w = Some t0" and kw: "beatCount w = Some k"
    and k1: "- 1 \<le> k" and k2: "k \<le> horizon_count t0 b (currentTime w)"
    and cw: "clicks w = c0 @ map (beat_time t0 b) [0..<nat (k + 1)]"
    and ow: "oscillators w = o0 @ map (beat_osc t0 b a) [0..<nat (k + 1)]"
  shows "scheduler w = Some (Inr (plan Scheduler
           (w\<lparr>clicks := c0 @ map (beat_time t0 b) [0..<nat (horizon_count t0 b (currentTime w) + 1)],
              oscillators := o0 @ map (beat_osc t0 b a) [0..<nat (horizon_count t0 b (currentTime w) + 1)],
              beatCount := Some (horizon_count t0 b (currentTime w))\<rparr>)))"
proof -
  let ?spb = "60 / b"
  let ?K = "horizon_count t0 b (currentTime w)"
  let ?nt = "t0 + of_int k * ?spb"
  let ?n = "nat (?K - k)"
  let ?m = "nat (k + 1)"
  have spb: "0 < ?spb" using b by simp
  have n: "?n = nat \<lceil>(currentTime w + lookAheadTime - ?nt) / ?spb\<rceil>"
  proof -
    define s :: real where "s = 60 / b"
    define H where "H = currentTime w + lookAheadTime"
    have s: "0 < s" using b by (simp add: s_def)
    have "(H - (t0 + of_int k * s)) / s = (H - t0) / s - of_int k"
      using s by (simp add: field_simps)
    then have "\<lceil>(H - (t0 + of_int k * s)) / s\<rceil> = \<lceil>(H - t0) / s\<rceil> - k"
      by simp
    then show ?thesis
      unfolding horizon_count_def s_def H_def by simp
  qed
  have loop: "scheduler_loop (Some (Fin a)) ?spb ?nt w = Some (Inr (emit_beats (Some (Fin a)) ?spb ?nt k ?n w))"
    by (rule scheduler_loop_steps [OF spb oc kw n])
  have mn: "?m + ?n = nat (?K + 1)" using k1 k2 by simp
  have t: "(\<lambda>j. ?nt + of_nat (Suc j) * ?spb) = (\<lambda>j. beat_time t0 b (?m + j))"
  proof
    fix j
    have "real ?m = of_int k + 1" using k1 by simp
    then show "?nt + of_nat (Suc j) * ?spb = beat_time t0 b (?m + j)"
      unfolding beat_time_def by (rule beat_time_shift)
  qed
  have o: "(\<lambda>j. (if isAccent (Some (Fin a)) (Some (k + int j)) then 330 else 220 :: real,
                    ?nt + of_nat (Suc j) * ?spb, ?nt + of_nat (Suc j) * ?spb + beepDuration))
           = (\<lambda>j. beat_osc t0 b a (?m + j))"
  proof
    fix j
    have i: "int (?m + j) - 1 = k + int j" using k1 by simp
    have "?nt + of_nat (Suc j) * ?spb = beat_time t0 b (?m + j)" using t by meson
    then show "(if isAccent (Some (Fin a)) (Some (k + int j)) then 330 else 220 :: real,
                    ?nt + of_nat (Suc j) * ?spb, ?nt + of_nat (Suc j) * ?spb + beepDuration) = beat_osc t0 b a (?m + j)"
      by (simp only: beat_osc_def i)
  qed
  have kn: "k + int ?n = ?K" using k2 by simp
  have e: "emit_beats (Some (Fin a)) ?spb ?nt k ?n w =
      w\<lparr>clicks := c0 @ map (beat_time t0 b) [0..<nat (?K + 1)],
        oscillators := o0 @ map (beat_osc t0 b a) [0..<nat (?K + 1)],
        beatCount := Some ?K\<rparr>"
    unfolding emit_beats_def t o cw ow kn
    by (simp only: append_assoc map_upt_offset mn)
  have "scheduler w = Some (Inr (plan Scheduler (emit_beats (Some (Fin a)) ?spb ?nt k ?n w)))"
    using b bw aw sw kw loop
    by (simp add: scheduler_def secondsPerBeat_of_def Let_def num_def setTimeout_def plan_def)
  then show ?thesis by (simp only: e)
qed

lemma horizon_count_pos:
  assumes "0 < b" "t0 \<le> now"
  shows "1 \<le> horizon_count t0 b now"
proof -
  have "0 < (now + lookAheadTime - t0) / (60 / b)"
    using assms by (simp add: lookAheadTime_def zero_less_divide_iff)
  then have "0 < horizon_count t0 b now"
    unfolding horizon_count_def by (simp only: less_ceiling_iff of_int_0)
  then show ?thesis by simp
qed

lemma horizon_count_mono:
  assumes "0 < b" "s \<le> t"
  shows "horizon_count t0 b s \<le> horizon_count t0 b t"
proof -
  have "(s + lookAheadTime - t0) / (60 / b) \<le> (t + lookAheadTime - t0) / (60 / b)"
    using assms by (simp add: divide_right_mono)
  then show ?thesis unfolding horizon_count_def by (rule ceiling_mono)
qed

lemma map_of_plan:
  assumes "wf_timers w"
  shows "map_of (timers w @ [(nextTimer w, f)]) (nextTimer w) = Some f"
proof -
  have "nextTimer w \<notin> fst ` set (timers w)"
    using assms by (auto simp: wf_timers_def)
  then have "map_of (timers w) (nextTimer w) = None" by (simp add: map_of_eq_None_iff)
  then show ?thesis by (simp add: map_add_def)
qed

lemma wf_timers_plan:
  assumes "wf_timers w"
  shows "wf_timers (plan f w)"
  using assms by (auto simp: wf_timers_def plan_def less_Suc_eq)

lemma start_in_session:
  assumes b: "0 < b" and a: "a \<noteq> 0" and oc: "onClick w" and wf: "wf_timers w"
  shows "\<exists>w'. start (JNum b) (JNum a) w = Some (Inr w') \<and>
           in_session b a (currentTime w) (clicks w) (oscillators w) w' \<and>
           currentTime w' = currentTime w"
proof -
  let ?w1 = "w\<lparr>console := console w @ [Started (JNum b) (JNum a)],
                suspended := False, bpm := Some (Fin b), accent := Some (Fin a), isPlaying := True,
                beatCount := Some (- 1), startTimeStamp := Some (currentTime w)\<rparr>"
  let ?t0 = "currentTime w"
  let ?K = "horizon_count ?t0 b ?t0"
  have st: "start (JNum b) (JNum a) w = scheduler ?w1"
    using b a by (simp add: start_def falsy_def isNaN_def to_number_def)
  have K: "1 \<le> ?K" using b by (simp add: horizon_count_pos)
  have "scheduler ?w1 = Some (Inr (plan Scheduler
           (?w1\<lparr>clicks := clicks w @ map (beat_time ?t0 b) [0..<nat (horizon_count ?t0 b (currentTime ?w1) + 1)],
              oscillators := oscillators w @ map (beat_osc ?t0 b a) [0..<nat (horizon_count ?t0 b (currentTime ?w1) + 1)],
              beatCount := Some (horizon_count ?t0 b (currentTime ?w1))\<rparr>)))"
    by (rule scheduler_session_step [where k = "- 1"]) (use b oc K in simp_all)
  moreover have "in_session b a ?t0 (clicks w) (oscillators w) (plan Scheduler
           (?w1\<lparr>clicks := clicks w @ map (beat_time ?t0 b) [0..<nat (horizon_count ?t0 b (currentTime ?w1) + 1)],
              oscillators := oscillators w @ map (beat_osc ?t0 b a) [0..<nat (horizon_count ?t0 b (currentTime ?w1) + 1)],
              beatCount := Some (horizon_count ?t0 b (currentTime ?w1))\<rparr>))"
    using oc wf map_of_plan [OF wf, of Scheduler] wf_timers_plan [OF wf, of Scheduler]
    by (simp add: in_session_def plan_def wf_timers_def)
  ultimately show ?thesis using st by (simp add: plan_def)
qed

lemma fire_in_session:
  assumes b: "0 < b" and ins: "in_session b a t0 c0 o0 w" and t: "currentTime w \<le> t"
    and i: "timerID w = Some i"
  shows "\<exists>w'. fire i (advance t w) = Some (Inr w') \<and> in_session b a t0 c0 o0 w' \<and>
           currentTime w' = t"
proof -
  let ?w1 = "w\<lparr>currentTime := t, timers := filter (\<lambda>p. fst p \<noteq> i) (timers w)\<rparr>"
  let ?Kc = "horizon_count t0 b (currentTime w)"
  let ?K = "horizon_count t0 b t"
  from ins i have pend: "map_of (timers w) i = Some Scheduler"
    by (auto simp: in_session_def)
  from ins have wf: "wf_timers w" by (simp add: in_session_def)
  then have wf1: "wf_timers ?w1" by (auto simp: wf_timers_def)
  have f: "fire i (advance t w) = scheduler ?w1"
    using pend by (simp add: fire_def advance_def)
  have mono: "?Kc \<le> ?K" using b t by (rule horizon_count_mono)
  have pos: "1 \<le> ?Kc" using b ins by (simp add: horizon_count_pos in_session_def)
  have "scheduler ?w1 = Some (Inr (plan Scheduler
           (?w1\<lparr>clicks := c0 @ map (beat_time t0 b) [0..<nat (horizon_count t0 b (currentTime ?w1) + 1)],
              oscillators := o0 @ map (beat_osc t0 b a) [0..<nat (horizon_count t0 b (currentTime ?w1) + 1)],
              beatCount := Some (horizon_count t0 b (currentTime ?w1))\<rparr>)))"
    by (rule scheduler_session_step [where k = ?Kc]) (use b ins mono pos in \<open>simp_all add: in_session_def\<close>)
  moreover have "in_session b a t0 c0 o0 (plan Scheduler
           (?w1\<lparr>clicks := c0 @ map (beat_time t0 b) [0..<nat (horizon_count t0 b (currentTime ?w1) + 1)],
              oscillators := o0 @ map (beat_osc t0 b a) [0..<nat (horizon_count t0 b (currentTime ?w1) + 1)],
              beatCount := Some (horizon_count t0 b (currentTime ?w1))\<rparr>))"
    using ins t map_of_plan [OF wf1, of Scheduler] wf_timers_plan [OF wf1, of Scheduler]
    by (simp add: in_session_def plan_def wf_timers_def)
  ultimately show ?thesis using f by (simp add: plan_def)
qed

lemma ticks_in_session:
  assumes "0 < b" "in_session b a t0 c0 o0 w" "sorted (currentTime w # ts)"
  shows "\<exists>w'. ticks ts w = Some (Inr w') \<and> in_session b a t0 c0 o0 w' \<and>
           currentTime w' = last (currentTime w # ts)"
  using assms
proof (induction ts arbitrary: w)
  case Nil
  then show ?case by simp
next
  case (Cons t ts)
  from Cons.prems obtain i where i: "timerID w = Some i" by (auto simp: in_session_def)
  from Cons.prems have t: "currentTime w \<le> t" by simp
  from fire_in_session [OF Cons.prems(1,2) t i] obtain w1 where
    w1: "fire i (advance t w) = Some (Inr w1)" "in_session b a t0 c0 o0 w1" "currentTime w1 = t"
    by blast
  from Cons.prems have "sorted (currentTime w1 # ts)" using w1(3) by simp
  from Cons.IH [OF Cons.prems(1) w1(2) this] obtain w' where
    "ticks ts w1 = Some (Inr w')" "in_session b a t0 c0 o0 w'" "currentTime w' = last (currentTime w1 # ts)"
    by blast
  then show ?case using i w1 by simp
qed



section \<open>Evaluation on concrete inputs\<close>

lemmas eval_defs = start_def falsy_def isNaN_def to_number_def scheduler_def secondsPerBeat_of_def
      Let_def num_def
      scheduler_loop.simps lookAheadTime_def playSound_def isAccent_def js_rem_def js_trunc_def
      beepDuration_def setTimeout_def new_metronome_def set_onClick_def stop_def clearTimeout_def
      fire_def advance_def

section \<open>The accent test\<close>

lemma isAccent_first: "isAccent a (Some (- 1))"
  by (simp add: isAccent_def)

lemma js_rem_int:
  assumes "0 \<le> k" "0 < n"
  shows "js_rem (of_int k) (of_int n) = of_int (k mod n)"
proof -
  have "(0::real) \<le> of_int k / of_int n" using assms by simp
  then have "js_trunc (of_int k / of_int n) = k div n"
    by (simp add: js_trunc_def floor_divide_of_int_eq)
  then show ?thesis 
    by (simp add: js_rem_def) (metis of_int_mult of_int_diff minus_mult_div_eq_mod)
qed

section \<open>What start rejects and what it stores\<close>

text \<open>
  The two guards reject exactly \<open>undefined\<close>, \<open>null\<close>, \<open>NaN\<close> and 0, and a rejected
  call changes nothing but the console. An accepted call stores a tempo other than zero,
  and \<open>_scheduler\<close> keeps it, so the \<open>NonFinite\<close> branch of \<open>scheduler\<close> is not
  reached from a tempo that \<open>start\<close> stored.
\<close>

lemma start_rejects_bpm:
  assumes "falsy bpm0 \<or> isNaN (to_number bpm0)"
  shows "start bpm0 accent0 w = Some (Inr (w\<lparr>console := console w @ [InvalidBpm bpm0]\<rparr>))"
  using assms by (simp add: start_def Let_def)

lemma start_rejects_accent:
  assumes "\<not> (falsy bpm0 \<or> isNaN (to_number bpm0))" "accent0 \<noteq> JUndefined"
    "falsy accent0 \<or> isNaN (to_number accent0)"
  shows "start bpm0 accent0 w = Some (Inr (w\<lparr>console := console w @ [InvalidAccent accent0]\<rparr>))"
  using assms by (simp add: start_def Let_def)

lemma rejected_values:
  "falsy v \<or> isNaN (to_number v) \<longleftrightarrow> v \<in> {JUndefined, JNull, JNaN, JNum 0}"
  by (cases v) (simp_all add: falsy_def isNaN_def to_number_def)

lemma scheduler_loop_invariant:
  assumes "scheduler_loop a spb nt w = Some r"
  shows "bpm (state_of r) = bpm w \<and> (\<forall>e w'. r = Inl (e, w') \<longrightarrow> e = TypeError)"
proof (rule scheduler_loop.raw_induct
    [where P = "\<lambda>a spb nt w r. bpm (state_of r) = bpm w \<and> (\<forall>e w'. r = Inl (e, w') \<longrightarrow> e = TypeError)",
     OF _ assms])
  fix f :: "jsnum option \<Rightarrow> real \<Rightarrow> real \<Rightarrow> world \<Rightarrow> outcome option"
  fix a spb nt w r
  assume ih: "\<And>a spb nt w r. f a spb nt w = Some r \<Longrightarrow>
      bpm (state_of r) = bpm w \<and> (\<forall>e w'. r = Inl (e, w') \<longrightarrow> e = TypeError)"
  assume step: "(if nt < currentTime w + lookAheadTime then
        (let nextNotetime' = nt + spb;
             frequency = (if isAccent a (beatCount w) then 330 else 220)
         in case playSound nextNotetime' frequency w of
              Inl e \<Rightarrow> Some (Inl e)
            | Inr w' \<Rightarrow> f a spb nextNotetime' (w'\<lparr>beatCount := Some (num (beatCount w') + 1)\<rparr>))
      else Some (Inr w)) = Some r"
  show "bpm (state_of r) = bpm w \<and> (\<forall>e w'. r = Inl (e, w') \<longrightarrow> e = TypeError)"
  proof (cases "nt < currentTime w + lookAheadTime")
    case False
    with step have "r = Inr w" by simp
    then show ?thesis by (simp add: state_of_def)
  next
    case guard: True
    show ?thesis
    proof (cases "onClick w")
      case False
      with step guard have "r = Inl (TypeError, w)" by (simp add: playSound_def Let_def)
      then show ?thesis by (simp add: state_of_def)
    next
      case True
      let ?w1 = "w\<lparr>clicks := clicks w @ [nt + spb],
        oscillators := oscillators w @ [(if isAccent a (beatCount w) then 330 else 220, nt + spb, nt + spb + beepDuration)],
        beatCount := Some (num (beatCount w) + 1)\<rparr>"
      from step guard True have "f a spb (nt + spb) ?w1 = Some r"
        by (simp add: playSound_def Let_def)
      from ih [OF this] show ?thesis by simp
    qed
  qed
qed

lemma scheduler_never_NonFinite:
  assumes "secondsPerBeat_of (bpm w) = Some s"
  shows "scheduler w \<noteq> Some (Inl (NonFinite, w'))"
proof
  assume h: "scheduler w = Some (Inl (NonFinite, w'))"
  let ?l = "scheduler_loop (accent w) s
      (num (startTimeStamp w) + of_int (num (beatCount w)) * s) w"
  show False
  proof (cases ?l)
    case None
    with h assms show False by (simp add: scheduler_def Let_def)
  next
    case (Some r)
    from scheduler_loop_invariant [OF Some] have e: "\<forall>e w'. r = Inl (e, w') \<longrightarrow> e = TypeError"
      by blast
    show False
    proof (cases r)
      case (Inl p)
      with h assms Some have "p = (NonFinite, w')" by (simp add: scheduler_def Let_def)
      with Inl e show False by simp
    next
      case (Inr w1)
      with h assms Some show False
        by (simp add: scheduler_def Let_def split: prod.splits)
    qed
  qed
qed

lemma accepted_tempo:
  assumes "\<not> (falsy v \<or> isNaN (to_number v))"
  shows "\<exists>x s. to_number v = Some x \<and> x \<noteq> Fin 0 \<and> secondsPerBeat_of (Some x) = Some s"
  using assms
  by (cases v) (simp_all add: falsy_def isNaN_def to_number_def secondsPerBeat_of_def)

lemma start_stores_nonzero_bpm:
  assumes "start bpm0 accent0 w = Some r" "bpm w \<noteq> Some (Fin 0)"
  shows "bpm (state_of r) \<noteq> Some (Fin 0)"
proof (cases "falsy bpm0 \<or> isNaN (to_number bpm0) \<or>
    falsy (if accent0 = JUndefined then JNum 4 else accent0) \<or>
    isNaN (to_number (if accent0 = JUndefined then JNum 4 else accent0))")
  case True
  with assms show ?thesis
    by (auto simp: start_def Let_def state_of_def split: if_splits)
next
  case False
  let ?w1 = "w\<lparr>console := console w @ [Started bpm0 (if accent0 = JUndefined then JNum 4 else accent0)],
                suspended := False, bpm := to_number bpm0,
                accent := to_number (if accent0 = JUndefined then JNum 4 else accent0),
                isPlaying := True, beatCount := Some (- 1),
                startTimeStamp := Some (currentTime w)\<rparr>"
  from False have "\<not> (falsy bpm0 \<or> isNaN (to_number bpm0))" by simp
  from accepted_tempo [OF this] obtain x s where
    x: "to_number bpm0 = Some x" "x \<noteq> Fin 0" "secondsPerBeat_of (Some x) = Some s"
    by blast
  from False assms(1) have sch: "scheduler ?w1 = Some r"
    by (simp add: start_def Let_def)
  let ?l = "scheduler_loop (accent ?w1) s
      (num (startTimeStamp ?w1) + of_int (num (beatCount ?w1)) * s) ?w1"
  from sch x obtain r1 where r1: "?l = Some r1"
    by (cases ?l) (simp_all add: scheduler_def Let_def)
  from scheduler_loop_invariant [OF r1] have inv: "bpm (state_of r1) = Some x"
    using x by simp
  have "bpm (state_of r) = bpm (state_of r1)"
    using sch x r1
    by (cases r1) (auto simp: scheduler_def Let_def state_of_def setTimeout_def split: prod.splits)
  with inv x show ?thesis by simp
qed

section \<open>Validation in start and toggle\<close>

text \<open>
  C10. On a metronome on which \<open>start\<close> has never succeeded (\<open>#bpm\<close> is still
  \<open>null\<close>, nothing is playing), \<open>toggle()\<close> without a tempo passes \<open>null\<close> on to
  \<open>start\<close>, whose first guard rejects it: the call returns with the state it found and
  one more console line, whatever the accent argument is.
\<close>

theorem toggle_fresh:
  assumes "bpm w = None" "\<not> isPlaying w"
  shows "toggle JUndefined accent0 w = Some (Inr (w\<lparr>console := console w @ [InvalidBpm JNull]\<rparr>))"
  using assms by (simp add: toggle_def start_def field_value_def falsy_def Let_def)

theorem toggle_fresh_witness:
  "bpm (new_metronome 0) = None \<and> \<not> isPlaying (new_metronome 0) \<and>
   toggle JUndefined JUndefined (new_metronome 0) =
     Some (Inr ((new_metronome 0)\<lparr>console := [InvalidBpm JNull]\<rparr>))"
  using toggle_fresh [of "new_metronome 0" JUndefined]
  by (simp add: new_metronome_def)

text \<open>
  C4, at a negative tempo. The guard of \<open>start\<close> tests \<open>!bpm\<close> and
  \<open>Number.isNaN(+bpm)\<close> only, so \<open>start(-60, 4)\<close> on a new metronome is not
  rejected: nothing is reported as invalid, \<open>isPlaying\<close> becomes true and the tempo
  \<open>-60\<close> is stored.
\<close>

theorem start_accepts_negative_bpm:
  "start (JNum (- 60)) (JNum 4) (set_onClick (new_metronome 0)) =
     Some (Inr \<lparr>isPlaying = True, timerID = Some 1, bpm = Some (Fin (- 60)),
          accent = Some (Fin 4), startTimeStamp = Some 0, beatCount = Some (- 1),
          rhythm = None, onClick = True, currentTime = 0, suspended = False,
          oscillators = [], clicks = [], timers = [(1, Scheduler)],
          nextTimer = 2, console = [Started (JNum (- 60)) (JNum 4)]\<rparr>)"
  by (simp add: eval_defs)

section \<open>The first tick\<close>

text \<open>
  C5. \<open>start(120, 4)\<close> at clock time 0 with a callback registered: the synchronous
  first run of \<open>_scheduler\<close> emits exactly two beats, beat 0 at time 0 with 330 Hz and
  beat 1 at time 0.5 with 220 Hz. Beat 1 lies exactly on \<open>currentTime + lookAheadTime\<close>;
  it is emitted because the guard compares the note time before its increment (0 < 0.5),
  and the loop stops there (0.5 < 0.5 fails).
\<close>

theorem first_tick_at_boundary:
  assumes "onClick w" "currentTime w = 0"
  shows "start (JNum 120) (JNum 4) w =
     Some (Inr (w\<lparr>console := console w @ [Started (JNum 120) (JNum 4)],
                  suspended := False, bpm := Some (Fin 120), accent := Some (Fin 4), isPlaying := True,
                  startTimeStamp := Some 0,
                  clicks := clicks w @ [0, 1 / 2],
                  oscillators := oscillators w @ [(330, 0, 1 / 20), (220, 1 / 2, 11 / 20)],
                  beatCount := Some 1,
                  timers := timers w @ [(nextTimer w, Scheduler)],
                  nextTimer := nextTimer w + 1,
                  timerID := Some (nextTimer w)\<rparr>))"
  using assms by (simp add: eval_defs)

theorem first_tick_at_boundary_witness:
  "onClick (set_onClick (new_metronome 0)) \<and> currentTime (set_onClick (new_metronome 0)) = 0 \<and>
   start (JNum 120) (JNum 4) (set_onClick (new_metronome 0)) =
     Some (Inr \<lparr>isPlaying = True, timerID = Some 1, bpm = Some (Fin 120), accent = Some (Fin 4),
          startTimeStamp = Some 0, beatCount = Some 1, rhythm = None,
          onClick = True, currentTime = 0, suspended = False,
          oscillators = [(330, 0, 1 / 20), (220, 1 / 2, 11 / 20)],
          clicks = [0, 1 / 2], timers = [(1, Scheduler)], nextTimer = 2,
          console = [Started (JNum 120) (JNum 4)]\<rparr>)"
  using first_tick_at_boundary [of "set_onClick (new_metronome 0)"]
  by (simp add: new_metronome_def set_onClick_def)

section \<open>Stopping\<close>

text \<open>
  C7. \<open>stop()\<close> is idempotent: a second \<open>stop()\<close> leaves every field of the metronome
  and of the browser as the first one left it; only the console gets its line again.
  After \<open>stop()\<close> nothing is playing. On a metronome that is not playing, \<open>stop()\<close>
  changes no field of the metronome, and when its handle is not pending it changes
  nothing but the console.
\<close>

theorem stop_idempotent:
  "(stop (stop w))\<lparr>console := c\<rparr> = (stop w)\<lparr>console := c\<rparr> \<and>
   \<not> isPlaying (stop w) \<and>
   (\<not> isPlaying w \<longrightarrow> playback_state (stop w) = playback_state w) \<and>
   (\<not> isPlaying w \<and> (\<forall>p \<in> set (timers w). Some (fst p) \<noteq> timerID w) \<longrightarrow>
      (stop w)\<lparr>console := c\<rparr> = w\<lparr>console := c\<rparr>)"
proof -
  have filt: "\<forall>p \<in> set xs. Some (fst p) \<noteq> h \<Longrightarrow>
      (case h of None \<Rightarrow> xs | Some i \<Rightarrow> filter (\<lambda>p. fst p \<noteq> i) xs) = xs"
    for xs :: "(nat \<times> task) list" and h
    by (cases h) (auto simp: filter_id_conv)
  have t: "timers (stop w) = (case timerID w of None \<Rightarrow> timers w | Some i \<Rightarrow> filter (\<lambda>p. fst p \<noteq> i) (timers w))"
    by (simp add: stop_def clearTimeout_def split: option.splits)
  have 1: "(stop (stop w))\<lparr>console := c\<rparr> = (stop w)\<lparr>console := c\<rparr>"
    by (simp add: stop_def clearTimeout_def split: option.splits)
  have 2: "\<not> isPlaying (stop w)" by (simp add: stop_def)
  have 3: "\<not> isPlaying w \<longrightarrow> playback_state (stop w) = playback_state w"
    by (simp add: stop_def clearTimeout_def playback_state_def split: option.splits)
  have 4: "\<not> isPlaying w \<and> (\<forall>p \<in> set (timers w). Some (fst p) \<noteq> timerID w) \<longrightarrow>
      (stop w)\<lparr>console := c\<rparr> = w\<lparr>console := c\<rparr>"
  proof
    assume h: "\<not> isPlaying w \<and> (\<forall>p \<in> set (timers w). Some (fst p) \<noteq> timerID w)"
    then have "timers (stop w) = timers w" using filt [of "timers w" "timerID w"] t by simp
    moreover have "(stop w)\<lparr>console := c\<rparr> = w\<lparr>console := c, timers := timers (stop w)\<rparr>"
      using h by (simp add: stop_def clearTimeout_def split: option.splits)
    ultimately show "(stop w)\<lparr>console := c\<rparr> = w\<lparr>console := c\<rparr>" by simp
  qed
  from 1 2 3 4 show ?thesis by blast
qed

theorem stop_idempotent_witness:
  "\<not> isPlaying (new_metronome 0) \<and>
   timers (new_metronome 0) = [] \<and>
   (stop (stop (new_metronome 0)))\<lparr>console := []\<rparr> = (stop (new_metronome 0))\<lparr>console := []\<rparr> \<and>
   playback_state (stop (new_metronome 0)) = playback_state (new_metronome 0) \<and>
   (stop (new_metronome 0))\<lparr>console := []\<rparr> = new_metronome 0"
  using stop_idempotent [where w = "new_metronome 0" and c = "[]"]
  by (simp add: new_metronome_def)

text \<open>
  C8, after \<open>start\<close> is called twice. The second \<open>start\<close> overwrites \<open>#timerID\<close>
  without clearing the timeout the first one planned, so \<open>stop()\<close> clears the second
  timeout only. The first timeout (handle 1) is still pending after \<open>stop()\<close>; when it
  fires at clock time 1, \<open>_scheduler\<close> runs, emits the beats at 1 and 1.5 and plans a
  further run, although \<open>isPlaying\<close> is false.
\<close>

theorem tick_fires_after_stop:
  "and_then (and_then (and_then
       (start (JNum 120) (JNum 4) (set_onClick (new_metronome 0)))
       (start (JNum 120) (JNum 4)))
       (\<lambda>w. Some (Inr (stop w))))
       (\<lambda>w. fire 1 (advance 1 w)) =
   Some (Inr \<lparr>isPlaying = False, timerID = Some 3, bpm = Some (Fin 120),
          accent = Some (Fin 4), startTimeStamp = Some 0, beatCount = Some 3,
          rhythm = None, onClick = True, currentTime = 1, suspended = False,
          oscillators =
            [(330, 0, 1 / 20), (220, 1 / 2, 11 / 20), (330, 0, 1 / 20),
             (220, 1 / 2, 11 / 20), (220, 1, 21 / 20),
             (220, 3 / 2, 31 / 20)],
          clicks = [0, 1 / 2, 0, 1 / 2, 1, 3 / 2],
          timers = [(3, Scheduler)], nextTimer = 4,
          console =
            [Started (JNum 120) (JNum 4), Started (JNum 120) (JNum 4),
             Stopped]\<rparr>)"
  by (simp add: eval_defs and_then_def)

section \<open>A playback session\<close>

lemma session_closed:
  assumes b: "0 < b" and a: "a \<noteq> 0" and oc: "onClick w" and wf: "wf_timers w"
    and srt: "sorted (currentTime w # ts)"
  shows "\<exists>w'. session (JNum b) (JNum a) ts w = Some (Inr w') \<and>
           in_session b a (currentTime w) (clicks w) (oscillators w) w' \<and>
           currentTime w' = last (currentTime w # ts)"
proof -
  from start_in_session [OF b a oc wf] obtain w1 where
    w1: "start (JNum b) (JNum a) w = Some (Inr w1)"
        "in_session b a (currentTime w) (clicks w) (oscillators w) w1"
        "currentTime w1 = currentTime w"
    by blast
  from srt w1(3) have "sorted (currentTime w1 # ts)" by simp
  from ticks_in_session [OF b w1(2) this] obtain w' where
    "ticks ts w1 = Some (Inr w')"
    "in_session b a (currentTime w) (clicks w) (oscillators w) w'"
    "currentTime w' = last (currentTime w1 # ts)"
    by blast
  with w1 show ?thesis by (simp add: session_def)
qed

lemma beat_time_strict_mono:
  assumes "0 < b" "i < j"
  shows "beat_time t0 b i < beat_time t0 b j"
proof -
  have "0 < 60 / b" using assms by simp
  moreover have "real i < real j" using assms by simp
  ultimately have "real i * (60 / b) < real j * (60 / b)"
    by (simp only: mult_strict_right_mono)
  then show ?thesis unfolding beat_time_def by (simp only: add_strict_left_mono)
qed

lemma sorted_beat_times:
  assumes "0 < b"
  shows "sorted_wrt (<) (map (beat_time t0 b) [0..<n])"
  using assms by (simp add: sorted_wrt_map sorted_wrt_iff_nth_less beat_time_strict_mono)

lemma horizon_count_iff:
  assumes b: "0 < b" and now: "t0 \<le> now"
  shows "i < nat (horizon_count t0 b now + 1) \<longleftrightarrow>
         beat_time t0 b i - 60 / b < now + lookAheadTime"
proof -
  define s :: real where "s = 60 / b"
  define H where "H = now + lookAheadTime - t0"
  have s: "0 < s" using b by (simp add: s_def)
  have K: "1 \<le> horizon_count t0 b now" using b now by (rule horizon_count_pos)
  have "i < nat (horizon_count t0 b now + 1) \<longleftrightarrow> int i - 1 < \<lceil>H / s\<rceil>"
    using K unfolding horizon_count_def H_def s_def by linarith
  also have "\<dots> \<longleftrightarrow> of_int (int i - 1) < H / s"
    by (simp only: less_ceiling_iff)
  also have "\<dots> \<longleftrightarrow> (real i - 1) * s < H"
    using s by (simp add: pos_less_divide_eq)
  also have "\<dots> \<longleftrightarrow> t0 + real i * s - s < now + lookAheadTime"
    unfolding H_def by (simp add: algebra_simps)
  finally show ?thesis unfolding beat_time_def s_def .
qed

lemma sorted_le_last:
  assumes "sorted (x # xs)" "t \<in> set (x # xs)"
  shows "t \<le> last (x # xs)"
  using assms
proof (induction xs arbitrary: x t)
  case Nil
  then show ?case by simp
next
  case (Cons y ys)
  from Cons.prems(1) have xy: "x \<le> y" and srt: "sorted (y # ys)" by simp_all
  have y: "y \<le> last (y # ys)" by (rule Cons.IH [OF srt]) simp
  show ?case
  proof (cases "t = x")
    case True
    with xy y show ?thesis by simp
  next
    case False
    with Cons.prems(2) have "t \<in> set (y # ys)" by simp
    from Cons.IH [OF srt this] show ?thesis by simp
  qed
qed

lemma start_many_beats:
  assumes oc: "onClick w" and wf: "wf_timers w" and a: "a \<noteq> 0"
  shows "\<exists>b w'. 0 < b \<and> start (JNum b) (JNum a) w = Some (Inr w') \<and>
           length (clicks w) + m < length (clicks w')"
proof -
  define b :: real where "b = 120 * (real m + 1)"
  have b: "0 < b" by (simp add: b_def)
  have "(currentTime w + lookAheadTime - currentTime w) / (60 / b) = real (m + 1)"
    by (simp add: lookAheadTime_def b_def)
  then have "horizon_count (currentTime w) b (currentTime w) = \<lceil>real (m + 1)\<rceil>"
    unfolding horizon_count_def by (rule arg_cong)
  then have K: "horizon_count (currentTime w) b (currentTime w) = int (m + 1)"
    by (simp only: ceiling_of_nat)
  from start_in_session [OF b a oc wf] obtain w' where
    w': "start (JNum b) (JNum a) w = Some (Inr w')"
        "in_session b a (currentTime w) (clicks w) (oscillators w) w'"
        "currentTime w' = currentTime w"
    by blast
  from w'(2,3) have "clicks w' = clicks w @ map (beat_time (currentTime w) b)
      [0..<nat (horizon_count (currentTime w) b (currentTime w) + 1)]"
    by (simp add: in_session_def)
  then have "length (clicks w') = length (clicks w) + (m + 2)"
    by (simp add: K)
  with b w'(1) show ?thesis by (intro exI [of _ b] exI [of _ w']) simp
qed

text \<open>
  C1. A session with a tempo \<open>b > 0\<close> and an accent \<open>a \<ge> 1\<close>: \<open>start\<close> at clock time
  \<open>t0\<close>, then a tick at each of the non-decreasing clock times \<open>ts\<close>. The session
  returns, and the callback has been called with exactly the target times
  \<open>t0 + i * 60 / b\<close> for \<open>i = 0, ..., n - 1\<close>, each once and in increasing order. Beat
  \<open>i\<close> is among them exactly when the note time before its increment,
  \<open>t0 + (i - 1) * 60 / b\<close>, lies below the last lookahead bound: the loop stops only
  there. So every beat whose target time is at most \<open>t + lookAheadTime\<close> for one of the
  clock times \<open>t\<close> of the session has been emitted. The number of beats one tick emits
  has no fixed bound: for every \<open>m\<close> some tempo makes the first tick alone emit more
  than \<open>m\<close> beats.
\<close>

theorem no_beat_lost_or_duplicated:
  assumes b: "0 < b" and a: "1 \<le> a" and oc: "onClick w" and wf: "wf_timers w"
    and srt: "sorted (currentTime w # ts)"
  shows "(\<exists>w' n. session (JNum b) (JNum a) ts w = Some (Inr w') \<and>
      clicks w' = clicks w @ map (beat_time (currentTime w) b) [0..<n] \<and>
      sorted_wrt (<) (map (beat_time (currentTime w) b) [0..<n]) \<and>
      (\<forall>i. i < n \<longleftrightarrow>
         beat_time (currentTime w) b i - 60 / b < last (currentTime w # ts) + lookAheadTime) \<and>
      (\<forall>i. \<forall>t \<in> set (currentTime w # ts).
         beat_time (currentTime w) b i \<le> t + lookAheadTime \<longrightarrow> i < n)) \<and>
    (\<forall>m. \<exists>b' w'. 0 < b' \<and> start (JNum b') (JNum a) w = Some (Inr w') \<and>
         length (clicks w) + m < length (clicks w'))"
proof
  let ?t0 = "currentTime w"
  let ?T = "last (?t0 # ts)"
  let ?n = "nat (horizon_count ?t0 b ?T + 1)"
  have a0: "a \<noteq> 0" using a by simp
  from session_closed [OF b a0 oc wf srt] obtain w' where
    w': "session (JNum b) (JNum a) ts w = Some (Inr w')"
        "in_session b a ?t0 (clicks w) (oscillators w) w'"
        "currentTime w' = ?T"
    by blast
  have T: "?t0 \<le> ?T" by (rule sorted_le_last [OF srt]) simp
  have c: "clicks w' = clicks w @ map (beat_time ?t0 b) [0..<?n]"
    using w'(2,3) by (simp add: in_session_def)
  have s: "sorted_wrt (<) (map (beat_time ?t0 b) [0..<?n])"
    using b by (rule sorted_beat_times)
  have iff: "\<forall>i. i < ?n \<longleftrightarrow> beat_time ?t0 b i - 60 / b < ?T + lookAheadTime"
    using horizon_count_iff [OF b T] by blast
  have win: "\<forall>i. \<forall>t \<in> set (?t0 # ts). beat_time ?t0 b i \<le> t + lookAheadTime \<longrightarrow> i < ?n"
  proof (intro allI ballI impI)
    fix i t
    assume t: "t \<in> set (?t0 # ts)" and le: "beat_time ?t0 b i \<le> t + lookAheadTime"
    have "t \<le> ?T" by (rule sorted_le_last [OF srt t])
    moreover have "0 < 60 / b" using b by simp
    ultimately have "beat_time ?t0 b i - 60 / b < ?T + lookAheadTime" using le by linarith
    then show "i < ?n" using iff by blast
  qed
  from w'(1) c s iff win
  show "\<exists>w' n. session (JNum b) (JNum a) ts w = Some (Inr w') \<and>
      clicks w' = clicks w @ map (beat_time ?t0 b) [0..<n] \<and>
      sorted_wrt (<) (map (beat_time ?t0 b) [0..<n]) \<and>
      (\<forall>i. i < n \<longleftrightarrow> beat_time ?t0 b i - 60 / b < ?T + lookAheadTime) \<and>
      (\<forall>i. \<forall>t \<in> set (?t0 # ts). beat_time ?t0 b i \<le> t + lookAheadTime \<longrightarrow> i < n)"
    by blast
next
  have a0: "a \<noteq> 0" using a by simp
  show "\<forall>m. \<exists>b' w'. 0 < b' \<and> start (JNum b') (JNum a) w = Some (Inr w') \<and>
         length (clicks w) + m < length (clicks w')"
    using start_many_beats [OF oc wf a0] by blast
qed

theorem no_beat_lost_or_duplicated_witness:
  "0 < (600::real) \<and> 1 \<le> (4::real) \<and> onClick (set_onClick (new_metronome 0)) \<and>
   wf_timers (set_onClick (new_metronome 0)) \<and>
   sorted (currentTime (set_onClick (new_metronome 0)) # [1 / 10, 7 / 10]) \<and>
   (\<exists>w' n. session (JNum 600) (JNum 4) [1 / 10, 7 / 10] (set_onClick (new_metronome 0)) = Some (Inr w') \<and>
      clicks w' = clicks (set_onClick (new_metronome 0)) @
        map (beat_time (currentTime (set_onClick (new_metronome 0))) 600) [0..<n] \<and>
      n = 13)"
proof -
  let ?W = "set_onClick (new_metronome 0)"
  have h1: "0 < (600::real)" and h2: "1 \<le> (4::real)" by simp_all
  have h3: "onClick ?W" by (simp add: set_onClick_def new_metronome_def)
  have h4: "wf_timers ?W" by (simp add: wf_timers_def set_onClick_def new_metronome_def)
  have h5: "sorted (currentTime ?W # [1 / 10, 7 / 10])"
    by (simp add: set_onClick_def new_metronome_def)
  from no_beat_lost_or_duplicated [OF h1 h2 h3 h4 h5] obtain w' n where
    r: "session (JNum 600) (JNum 4) [1 / 10, 7 / 10] ?W = Some (Inr w')"
       "clicks w' = clicks ?W @ map (beat_time (currentTime ?W) 600) [0..<n]"
       "\<forall>i. i < n \<longleftrightarrow>
         beat_time (currentTime ?W) 600 i - 60 / 600 < last (currentTime ?W # [1 / 10, 7 / 10]) + lookAheadTime"
    by blast
  have "i < n \<longleftrightarrow> i < 13" for i
  proof -
    have "i < n \<longleftrightarrow> real i / 10 - 1 / 10 < 7 / 10 + 1 / 2"
      using r(3) by (simp add: beat_time_def set_onClick_def new_metronome_def lookAheadTime_def)
    also have "\<dots> \<longleftrightarrow> i < 13" by linarith
    finally show ?thesis .
  qed
  then have "n = 13" by (metis linorder_neqE_nat nat_less_le)
  with r h1 h2 h3 h4 h5 show ?thesis by blast
qed





lemma mod_pred_iff_dvd:
  fixes k n :: int
  assumes "0 < n"
  shows "k mod n = n - 1 \<longleftrightarrow> n dvd (k + 1)"
proof
  assume "k mod n = n - 1"
  then have "(k + 1) mod n = (n - 1 + 1) mod n" by (metis mod_add_left_eq)
  then show "n dvd (k + 1)" by (simp add: dvd_eq_mod_eq_0)
next
  assume "n dvd (k + 1)"
  then obtain q where q: "k + 1 = n * q" by (auto simp: dvd_def)
  then have "k = n * q + (- 1)" by simp
  then have "k mod n = (- 1) mod n" by (metis mod_mult_self4 add.commute)
  also have "\<dots> = n - 1" using assms by (simp add: zmod_minus1)
  finally show "k mod n = n - 1" .
qed

lemma isAccent_iff_dvd:
  assumes n: "1 \<le> n"
  shows "isAccent (Some (Fin (real n))) (Some (int i - 1)) \<longleftrightarrow> n dvd i"
proof (cases i)
  case 0
  then show ?thesis by (simp add: isAccent_first)
next
  case (Suc j)
  have k: "0 \<le> int j" and pos: "0 < int n" using n by simp_all
  have "js_rem (of_int (int j)) (of_int (int n)) = of_int (int j mod int n)"
    by (rule js_rem_int [OF k pos])
  then have rem: "js_rem (real j) (real n) = of_int (int j mod int n)" by simp
  have "isAccent (Some (Fin (real n))) (Some (int i - 1)) \<longleftrightarrow> js_rem (real j) (real n) = real n - 1"
    using Suc by (simp add: isAccent_def num_def)
  also have "\<dots> \<longleftrightarrow> (of_int (int j mod int n) :: real) = of_int (int n - 1)"
    by (simp add: rem)
  also have "\<dots> \<longleftrightarrow> int j mod int n = int n - 1"
    by (simp only: of_int_eq_iff)
  also have "\<dots> \<longleftrightarrow> int n dvd (int j + 1)"
    by (rule mod_pred_iff_dvd [OF pos])
  also have "\<dots> \<longleftrightarrow> n dvd i"
    using Suc by (metis int_dvd_int_iff of_nat_Suc add.commute)
  finally show ?thesis .
qed

text \<open>
  C3. In a session whose accent is a whole number \<open>n \<ge> 1\<close>, the beat with index \<open>i\<close>
  sounds at 330 Hz when \<open>n\<close> divides \<open>i\<close> and at 220 Hz otherwise: for \<open>n = 4\<close>
  the accents are the beats 0, 4, 8, ..., for \<open>n = 1\<close> every beat. For every accent
  that \<open>start\<close> accepts, the first beat sounds at 330 Hz.
\<close>

theorem accent_pattern:
  assumes b: "0 < b" and n: "1 \<le> n" and oc: "onClick w" and wf: "wf_timers w"
    and srt: "sorted (currentTime w # ts)"
  shows "(\<exists>w' new. session (JNum b) (JNum (real n)) ts w = Some (Inr w') \<and>
      oscillators w' = oscillators w @ new \<and>
      length (clicks w') = length (clicks w) + length new \<and>
      (\<forall>i < length new. fst (new ! i) = (if n dvd i then 330 else 220))) \<and>
    (\<forall>a. a \<noteq> 0 \<longrightarrow>
      (\<exists>w' new. session (JNum b) (JNum a) ts w = Some (Inr w') \<and>
         oscillators w' = oscillators w @ new \<and> new \<noteq> [] \<and> fst (hd new) = 330))"
proof
  let ?t0 = "currentTime w"
  let ?n = "nat (horizon_count ?t0 b (last (?t0 # ts)) + 1)"
  let ?new = "map (beat_osc ?t0 b (real n)) [0..<?n]"
  have a0: "real n \<noteq> 0" using n by simp
  from session_closed [OF b a0 oc wf srt] obtain w' where
    w': "session (JNum b) (JNum (real n)) ts w = Some (Inr w')"
        "in_session b (real n) ?t0 (clicks w) (oscillators w) w'"
        "currentTime w' = last (?t0 # ts)"
    by blast
  have o: "oscillators w' = oscillators w @ ?new"
    using w'(2,3) by (simp add: in_session_def)
  have c: "length (clicks w') = length (clicks w) + length ?new"
    using w'(2,3) by (simp add: in_session_def)
  have f: "\<forall>i < length ?new. fst (?new ! i) = (if n dvd i then 330 else 220)"
    using isAccent_iff_dvd [OF n] by (simp add: beat_osc_def)
  from w'(1) o c f
  show "\<exists>w' new. session (JNum b) (JNum (real n)) ts w = Some (Inr w') \<and>
      oscillators w' = oscillators w @ new \<and>
      length (clicks w') = length (clicks w) + length new \<and>
      (\<forall>i < length new. fst (new ! i) = (if n dvd i then 330 else 220))"
    by blast
next
  show "\<forall>a. a \<noteq> 0 \<longrightarrow>
      (\<exists>w' new. session (JNum b) (JNum a) ts w = Some (Inr w') \<and>
         oscillators w' = oscillators w @ new \<and> new \<noteq> [] \<and> fst (hd new) = 330)"
  proof (intro allI impI)
    fix a :: real
    assume a0: "a \<noteq> 0"
    let ?t0 = "currentTime w"
    let ?K = "horizon_count ?t0 b (last (?t0 # ts))"
    let ?new = "map (beat_osc ?t0 b a) [0..<nat (?K + 1)]"
    from session_closed [OF b a0 oc wf srt] obtain w' where
      w': "session (JNum b) (JNum a) ts w = Some (Inr w')"
          "in_session b a ?t0 (clicks w) (oscillators w) w'"
          "currentTime w' = last (?t0 # ts)"
      by blast
    have T: "?t0 \<le> last (?t0 # ts)" by (rule sorted_le_last [OF srt]) simp
    have K: "1 \<le> ?K" using b T by (rule horizon_count_pos)
    have o: "oscillators w' = oscillators w @ ?new"
      using w'(2,3) by (simp add: in_session_def)
    have ne: "?new \<noteq> []" using K by simp
    have "hd ?new = beat_osc ?t0 b a 0"
      using K by (simp add: hd_map upt_conv_Cons)
    then have h: "fst (hd ?new) = 330"
      by (simp add: beat_osc_def isAccent_first)
    from w'(1) o ne h
    show "\<exists>w' new. session (JNum b) (JNum a) ts w = Some (Inr w') \<and>
         oscillators w' = oscillators w @ new \<and> new \<noteq> [] \<and> fst (hd new) = 330"
      by blast
  qed
qed

theorem accent_pattern_witness:
  "0 < (120::real) \<and> 1 \<le> (4::nat) \<and> onClick (set_onClick (new_metronome 0)) \<and>
   wf_timers (set_onClick (new_metronome 0)) \<and>
   sorted (currentTime (set_onClick (new_metronome 0)) # [1, 2]) \<and>
   (\<exists>w' new. session (JNum 120) (JNum (real 4)) [1, 2] (set_onClick (new_metronome 0)) = Some (Inr w') \<and>
      oscillators w' = oscillators (set_onClick (new_metronome 0)) @ new \<and>
      length (clicks w') = length (clicks (set_onClick (new_metronome 0))) + length new \<and>
      (\<forall>i < length new. fst (new ! i) = (if 4 dvd i then 330 else 220)))"
proof -
  let ?W = "set_onClick (new_metronome 0)"
  have h1: "0 < (120::real)" and h2: "1 \<le> (4::nat)" by simp_all
  have h3: "onClick ?W" by (simp add: set_onClick_def new_metronome_def)
  have h4: "wf_timers ?W" by (simp add: wf_timers_def set_onClick_def new_metronome_def)
  have h5: "sorted (currentTime ?W # [1, 2])"
    by (simp add: set_onClick_def new_metronome_def)
  from accent_pattern [OF h1 h2 h3 h4 h5] h1 h2 h3 h4 h5 show ?thesis by blast
qed

section \<open>Termination of a tick\<close>






section \<open>The rhythm scheduler\<close>

lemma rhythm_loop_closed:
  assumes "onClick w" "rhythm w = Some q" "num (startTimeStamp w) = t0"
  shows "rhythm_loop E q w =
     Inr (w\<lparr>rhythm := Some (dropWhile (\<lambda>e. t0 + beep_time e \<le> E) q),
            clicks := clicks w @ map (\<lambda>e. t0 + beep_time e) (takeWhile (\<lambda>e. t0 + beep_time e \<le> E) q),
            oscillators := oscillators w @
              map (\<lambda>e. (if beep_accent e then 330 else 220, t0 + beep_time e,
                         t0 + beep_time e + beepDuration))
                (takeWhile (\<lambda>e. t0 + beep_time e \<le> E) q)\<rparr>)"
  using assms
proof (induction q arbitrary: w)
  case Nil
  then show ?case by simp
next
  case (Cons e es)
  show ?case
  proof (cases "t0 + beep_time e \<le> E")
    case False
    with Cons.prems show ?thesis by simp
  next
    case True
    let ?w1 = "w\<lparr>rhythm := Some es, clicks := clicks w @ [t0 + beep_time e],
        oscillators := oscillators w @
          [(if beep_accent e then 330 else 220, t0 + beep_time e, t0 + beep_time e + beepDuration)]\<rparr>"
    have ih: "rhythm_loop E es ?w1 =
     Inr (?w1\<lparr>rhythm := Some (dropWhile (\<lambda>e. t0 + beep_time e \<le> E) es),
            clicks := clicks ?w1 @ map (\<lambda>e. t0 + beep_time e) (takeWhile (\<lambda>e. t0 + beep_time e \<le> E) es),
            oscillators := oscillators ?w1 @
              map (\<lambda>e. (if beep_accent e then 330 else 220, t0 + beep_time e,
                         t0 + beep_time e + beepDuration))
                (takeWhile (\<lambda>e. t0 + beep_time e \<le> E) es)\<rparr>)"
      by (rule Cons.IH) (use Cons.prems in simp_all)
    have "rhythm_loop E (e # es) w = rhythm_loop E es ?w1"
      using True Cons.prems by (simp add: playSound_def Let_def)
    with ih True show ?thesis by simp
  qed
qed

lemma rhythm_tick_closed:
  assumes oc: "onClick w" and q: "rhythm w = Some q"
  shows "schedulerForRhythmTrack w =
     Inr ((if dropWhile (rhythm_due w) q = [] then (\<lambda>w. w) else plan SchedulerForRhythmTrack)
       (w\<lparr>rhythm := Some (dropWhile (rhythm_due w) q),
          clicks := clicks w @ map (rhythm_click w) (takeWhile (rhythm_due w) q),
          oscillators := oscillators w @ map (rhythm_osc w) (takeWhile (rhythm_due w) q)\<rparr>))"
proof -
  have d: "rhythm_due w = (\<lambda>e. num (startTimeStamp w) + beep_time e \<le> currentTime w + lookAheadTime)"
    by (rule ext) (simp add: rhythm_due_def)
  have c: "rhythm_click w = (\<lambda>e. num (startTimeStamp w) + beep_time e)"
    by (rule ext) (simp add: rhythm_click_def)
  have o: "rhythm_osc w = (\<lambda>e. (if beep_accent e then 330 else 220,
      num (startTimeStamp w) + beep_time e, num (startTimeStamp w) + beep_time e + beepDuration))"
    by (rule ext) (simp add: rhythm_osc_def rhythm_click_def)
  have loop: "rhythm_loop (currentTime w + lookAheadTime) q w =
     Inr (w\<lparr>rhythm := Some (dropWhile (rhythm_due w) q),
          clicks := clicks w @ map (rhythm_click w) (takeWhile (rhythm_due w) q),
          oscillators := oscillators w @ map (rhythm_osc w) (takeWhile (rhythm_due w) q)\<rparr>)"
    unfolding d c o by (rule rhythm_loop_closed [OF oc q refl])
  show ?thesis
    using q loop
    by (cases "dropWhile (rhythm_due w) q")
       (simp_all add: schedulerForRhythmTrack_def setTimeout_def plan_def del: dropWhile_eq_Nil_conv)
qed

lemma rhythm_click_same:
  assumes "startTimeStamp w1 = startTimeStamp w"
  shows "rhythm_click w1 = rhythm_click w"
  using assms by (intro ext) (simp add: rhythm_click_def)

lemma rhythm_osc_same:
  assumes "startTimeStamp w1 = startTimeStamp w"
  shows "rhythm_osc w1 = rhythm_osc w"
  using assms by (intro ext) (simp add: rhythm_osc_def rhythm_click_def)

lemma rhythm_ticks_prefix:
  assumes "onClick w" "rhythm w = Some q"
  shows "\<exists>w' m. rhythm_ticks ts w = Inr w' \<and> m \<le> length q \<and>
           clicks w' = clicks w @ map (rhythm_click w) (take m q) \<and>
           oscillators w' = oscillators w @ map (rhythm_osc w) (take m q) \<and>
           rhythm w' = Some (drop m q)"
  using assms
proof (induction ts arbitrary: w q)
  case Nil
  then have "rhythm_ticks [] w = Inr w \<and> 0 \<le> length q \<and>
           clicks w = clicks w @ map (rhythm_click w) (take 0 q) \<and>
           oscillators w = oscillators w @ map (rhythm_osc w) (take 0 q) \<and>
           rhythm w = Some (drop 0 q)"
    by simp
  then show ?case by blast
next
  case (Cons t ts)
  let ?w0 = "advance t w"
  let ?P = "rhythm_due ?w0"
  let ?l = "length (takeWhile ?P q)"
  let ?f = "if dropWhile ?P q = [] then (\<lambda>w. w) else plan SchedulerForRhythmTrack"
  let ?w1 = "?f (?w0\<lparr>rhythm := Some (dropWhile ?P q),
          clicks := clicks ?w0 @ map (rhythm_click ?w0) (takeWhile ?P q),
          oscillators := oscillators ?w0 @ map (rhythm_osc ?w0) (takeWhile ?P q)\<rparr>)"
  have oc0: "onClick ?w0" and q0: "rhythm ?w0 = Some q"
    using Cons.prems by (simp_all add: advance_def)
  have st0: "startTimeStamp ?w0 = startTimeStamp w" by (simp add: advance_def)
  have tick: "schedulerForRhythmTrack ?w0 = Inr ?w1"
    by (rule rhythm_tick_closed [OF oc0 q0])
  have oc1: "onClick ?w1" using Cons.prems(1) by (simp add: advance_def plan_def)
  have q1: "rhythm ?w1 = Some (dropWhile ?P q)" by (simp add: plan_def)
  have st1: "startTimeStamp ?w1 = startTimeStamp w" by (simp add: advance_def plan_def)
  have cw0: "clicks ?w0 = clicks w" and ow0: "oscillators ?w0 = oscillators w"
    by (simp_all add: advance_def)
  have "clicks ?w1 = clicks ?w0 @ map (rhythm_click ?w0) (takeWhile ?P q)"
    by (simp add: plan_def del: dropWhile_eq_Nil_conv)
  then have c1: "clicks ?w1 = clicks w @ map (rhythm_click w) (takeWhile ?P q)"
    by (simp only: cw0 rhythm_click_same [OF st0])
  have "oscillators ?w1 = oscillators ?w0 @ map (rhythm_osc ?w0) (takeWhile ?P q)"
    by (simp add: plan_def del: dropWhile_eq_Nil_conv)
  then have o1: "oscillators ?w1 = oscillators w @ map (rhythm_osc w) (takeWhile ?P q)"
    by (simp only: ow0 rhythm_osc_same [OF st0])
  from Cons.IH [OF oc1 q1] obtain w' m where
    r: "rhythm_ticks ts ?w1 = Inr w'" "m \<le> length (dropWhile ?P q)"
       "clicks w' = clicks ?w1 @ map (rhythm_click ?w1) (take m (dropWhile ?P q))"
       "oscillators w' = oscillators ?w1 @ map (rhythm_osc ?w1) (take m (dropWhile ?P q))"
       "rhythm w' = Some (drop m (dropWhile ?P q))"
    by blast
  have "take (?l + m) q = take ?l q @ take m (drop ?l q)" by (rule take_add)
  also have "take ?l q = takeWhile ?P q" by (rule takeWhile_eq_take [symmetric])
  also have "drop ?l q = dropWhile ?P q" by (rule dropWhile_eq_drop [symmetric])
  finally have tk: "take (?l + m) q = takeWhile ?P q @ take m (dropWhile ?P q)" .
  have "drop m (dropWhile ?P q) = drop m (drop ?l q)"
    by (rule arg_cong [OF dropWhile_eq_drop])
  also have "\<dots> = drop (m + ?l) q" by (rule drop_drop)
  also have "m + ?l = ?l + m" by (rule add.commute)
  finally have dr: "drop m (dropWhile ?P q) = drop (?l + m) q" .
  have "length (takeWhile ?P q @ dropWhile ?P q) = length q"
    by (simp only: takeWhile_dropWhile_id)
  then have len: "?l + length (dropWhile ?P q) = length q" by (simp only: length_append)
  have 1: "rhythm_ticks (t # ts) w = Inr w'" using tick r(1) by simp
  have 2: "?l + m \<le> length q" using r(2) len by linarith
  have 3: "clicks w' = clicks w @ map (rhythm_click w) (take (?l + m) q)"
    by (simp only: r(3) c1 rhythm_click_same [OF st1] tk map_append append_assoc)
  have 4: "oscillators w' = oscillators w @ map (rhythm_osc w) (take (?l + m) q)"
    by (simp only: r(4) o1 rhythm_osc_same [OF st1] tk map_append append_assoc)
  have 5: "rhythm w' = Some (drop (?l + m) q)"
    by (simp only: r(5) dr)
  from 1 2 3 4 5 show ?case by blast
qed

text \<open>
  C6. One run of \<open>_schedulerForRhythmTrack\<close> on a queue \<open>q\<close>, with a callback
  registered: it pops exactly the longest front part of \<open>q\<close> whose events are due
  (the bound included), emits each at \<open>startTimestamp + offsetSeconds\<close> with 330 Hz
  when accented and 220 Hz otherwise, and leaves the rest in the queue. When the rest is
  empty no timeout is planned; otherwise one is. Over any sequence of further runs the
  events emitted are a front part of \<open>q\<close> in order and the queue holds what follows it,
  so no event is emitted twice.
\<close>

theorem rhythm_tick:
  assumes oc: "onClick w" and q: "rhythm w = Some q"
  shows "(\<exists>w'. schedulerForRhythmTrack w = Inr w' \<and>
      clicks w' = clicks w @ map (rhythm_click w) (takeWhile (rhythm_due w) q) \<and>
      oscillators w' = oscillators w @ map (rhythm_osc w) (takeWhile (rhythm_due w) q) \<and>
      rhythm w' = Some (dropWhile (rhythm_due w) q) \<and>
      (if dropWhile (rhythm_due w) q = []
       then timers w' = timers w \<and> timerID w' = timerID w
       else timers w' = timers w @ [(nextTimer w, SchedulerForRhythmTrack)] \<and>
            timerID w' = Some (nextTimer w))) \<and>
    (\<forall>ts. \<exists>w' m. rhythm_ticks ts w = Inr w' \<and> m \<le> length q \<and>
       clicks w' = clicks w @ map (rhythm_click w) (take m q) \<and>
       oscillators w' = oscillators w @ map (rhythm_osc w) (take m q) \<and>
       rhythm w' = Some (drop m q))"
proof
  let ?f = "if dropWhile (rhythm_due w) q = [] then (\<lambda>w. w) else plan SchedulerForRhythmTrack"
  let ?w1 = "?f (w\<lparr>rhythm := Some (dropWhile (rhythm_due w) q),
          clicks := clicks w @ map (rhythm_click w) (takeWhile (rhythm_due w) q),
          oscillators := oscillators w @ map (rhythm_osc w) (takeWhile (rhythm_due w) q)\<rparr>)"
  have tick: "schedulerForRhythmTrack w = Inr ?w1"
    by (rule rhythm_tick_closed [OF oc q])
  have "clicks ?w1 = clicks w @ map (rhythm_click w) (takeWhile (rhythm_due w) q) \<and>
      oscillators ?w1 = oscillators w @ map (rhythm_osc w) (takeWhile (rhythm_due w) q) \<and>
      rhythm ?w1 = Some (dropWhile (rhythm_due w) q) \<and>
      (if dropWhile (rhythm_due w) q = []
       then timers ?w1 = timers w \<and> timerID ?w1 = timerID w
       else timers ?w1 = timers w @ [(nextTimer w, SchedulerForRhythmTrack)] \<and>
            timerID ?w1 = Some (nextTimer w))"
    by (simp add: plan_def del: dropWhile_eq_Nil_conv)
  with tick show "\<exists>w'. schedulerForRhythmTrack w = Inr w' \<and>
      clicks w' = clicks w @ map (rhythm_click w) (takeWhile (rhythm_due w) q) \<and>
      oscillators w' = oscillators w @ map (rhythm_osc w) (takeWhile (rhythm_due w) q) \<and>
      rhythm w' = Some (dropWhile (rhythm_due w) q) \<and>
      (if dropWhile (rhythm_due w) q = []
       then timers w' = timers w \<and> timerID w' = timerID w
       else timers w' = timers w @ [(nextTimer w, SchedulerForRhythmTrack)] \<and>
            timerID w' = Some (nextTimer w))"
    by blast
next
  show "\<forall>ts. \<exists>w' m. rhythm_ticks ts w = Inr w' \<and> m \<le> length q \<and>
       clicks w' = clicks w @ map (rhythm_click w) (take m q) \<and>
       oscillators w' = oscillators w @ map (rhythm_osc w) (take m q) \<and>
       rhythm w' = Some (drop m q)"
    using rhythm_ticks_prefix [OF oc q] by blast
qed

theorem rhythm_tick_witness:
  "onClick ((set_onClick (new_metronome 0))
      \<lparr>rhythm := Some [\<lparr>beep_time = 1 / 2, beep_accent = True\<rparr>,
                        \<lparr>beep_time = 1, beep_accent = False\<rparr>]\<rparr>) \<and>
   rhythm ((set_onClick (new_metronome 0))
      \<lparr>rhythm := Some [\<lparr>beep_time = 1 / 2, beep_accent = True\<rparr>,
                        \<lparr>beep_time = 1, beep_accent = False\<rparr>]\<rparr>) =
     Some [\<lparr>beep_time = 1 / 2, beep_accent = True\<rparr>, \<lparr>beep_time = 1, beep_accent = False\<rparr>] \<and>
   (\<exists>w'. schedulerForRhythmTrack ((set_onClick (new_metronome 0))
      \<lparr>rhythm := Some [\<lparr>beep_time = 1 / 2, beep_accent = True\<rparr>,
                        \<lparr>beep_time = 1, beep_accent = False\<rparr>]\<rparr>) = Inr w' \<and>
      clicks w' = [1 / 2] \<and> oscillators w' = [(330, 1 / 2, 11 / 20)] \<and>
      rhythm w' = Some [\<lparr>beep_time = 1, beep_accent = False\<rparr>] \<and>
      timers w' = [(1, SchedulerForRhythmTrack)] \<and> timerID w' = Some 1)"
proof -
  let ?Q = "[\<lparr>beep_time = 1 / 2, beep_accent = True\<rparr>, \<lparr>beep_time = 1, beep_accent = False\<rparr>]"
  let ?W = "(set_onClick (new_metronome 0))\<lparr>rhythm := Some ?Q\<rparr>"
  have h1: "onClick ?W" by (simp add: set_onClick_def)
  have h2: "rhythm ?W = Some ?Q" by simp
  from rhythm_tick [OF h1 h2] obtain w' where
    r: "schedulerForRhythmTrack ?W = Inr w'"
      "clicks w' = clicks ?W @ map (rhythm_click ?W) (takeWhile (rhythm_due ?W) ?Q)"
      "oscillators w' = oscillators ?W @ map (rhythm_osc ?W) (takeWhile (rhythm_due ?W) ?Q)"
      "rhythm w' = Some (dropWhile (rhythm_due ?W) ?Q)"
      "(if dropWhile (rhythm_due ?W) ?Q = []
       then timers w' = timers ?W \<and> timerID w' = timerID ?W
       else timers w' = timers ?W @ [(nextTimer ?W, SchedulerForRhythmTrack)] \<and>
            timerID w' = Some (nextTimer ?W))"
    by blast
  have ev: "takeWhile (rhythm_due ?W) ?Q = [\<lparr>beep_time = 1 / 2, beep_accent = True\<rparr>]"
    "dropWhile (rhythm_due ?W) ?Q = [\<lparr>beep_time = 1, beep_accent = False\<rparr>]"
    by (simp_all add: rhythm_due_def set_onClick_def new_metronome_def num_def lookAheadTime_def)
  have "clicks w' = [1 / 2]" "oscillators w' = [(330, 1 / 2, 11 / 20)]"
    "rhythm w' = Some [\<lparr>beep_time = 1, beep_accent = False\<rparr>]"
    "timers w' = [(1, SchedulerForRhythmTrack)]" "timerID w' = Some 1"
    using r(2-5) unfolding ev
    by (simp_all add: rhythm_click_def rhythm_osc_def set_onClick_def new_metronome_def num_def
        beepDuration_def)
  with r(1) h1 h2 show ?thesis by blast
qed

end
